theory Spec2Isabelle
  imports Complex_Main "HOL-Library.Multiset" "HOL-Library.List_Lexorder" "HOL-Library.Char_ord"
begin

section \<open>Strings and the built-ins of the host language\<close>

text \<open>
  A string is a list of characters. The only character the code inspects is the path
  separator \<open>/\<close>, a single unit in every encoding, so the length of the other characters
  does not matter.

  \<open>startsWith\<close> is \<^verbatim>\<open>String.prototype.startsWith\<close>, \<open>split\<close> is
  \<^verbatim>\<open>String.prototype.split\<close> with a one-character separator (the empty string
  splits into one empty part), \<open>cleanPath\<close> is the replacement of one leading slash
  by nothing, written \<^verbatim>\<open>const cleanPath = file.path.replace(...)\<close> in
  \<^verbatim>\<open>Sidebar.tsx\<close> and \<^verbatim>\<open>App.tsx\<close>.
\<close>

fun startsWith :: "string \<Rightarrow> string \<Rightarrow> bool" where
  "startsWith s [] = True"
| "startsWith [] (c # p) = False"
| "startsWith (x # s) (c # p) = (x = c \<and> startsWith s p)"

fun split :: "char \<Rightarrow> string \<Rightarrow> string list" where
  "split sep [] = [[]]"
| "split sep (c # s) =
     (if c = sep then [] # split sep s
      else (c # hd (split sep s)) # tl (split sep s))"

definition cleanPath :: "string \<Rightarrow> string" where
  "cleanPath p = (case p of [] \<Rightarrow> [] | c # rest \<Rightarrow> if c = CHR ''/'' then rest else p)"

text \<open>
  \<^verbatim>\<open>a.localeCompare(b)\<close> is the collation of the host, which the repository does not
  define. ECMAScript requires it to be a consistent comparison (a total preorder on
  strings); such a comparison is the order of a key, so the collation is a parameter
  \<open>collate\<close> that maps a string to its key in some linear order. Strings with equal
  keys compare as \<open>0\<close>.
\<close>

definition localeCompare :: "(string \<Rightarrow> 'k::linorder) \<Rightarrow> string \<Rightarrow> string \<Rightarrow> int" where
  "localeCompare collate a b =
     (if collate a < collate b then - 1 else if collate a = collate b then 0 else 1)"

text \<open>
  \<^verbatim>\<open>Array.prototype.sort\<close> with a comparison function is a stable sort. For a
  consistent comparison every stable sort returns the same list, so insertion from the
  right, which keeps equal elements in their order, computes it.
\<close>

fun insertSorted :: "('a \<Rightarrow> 'a \<Rightarrow> int) \<Rightarrow> 'a \<Rightarrow> 'a list \<Rightarrow> 'a list" where
  "insertSorted cmp x [] = [x]"
| "insertSorted cmp x (y # ys) =
     (if cmp x y \<le> 0 then x # y # ys else y # insertSorted cmp x ys)"

definition jsSort :: "('a \<Rightarrow> 'a \<Rightarrow> int) \<Rightarrow> 'a list \<Rightarrow> 'a list" where
  "jsSort cmp xs = foldr (insertSorted cmp) xs []"

text \<open>
  \<^verbatim>\<open>Array.prototype.findIndex\<close> (\<open>None\<close> for the result \<open>-1\<close>), and the effect of
  mutating the first element that \<^verbatim>\<open>Array.prototype.find\<close> returns.
\<close>

fun findIndex :: "('a \<Rightarrow> bool) \<Rightarrow> 'a list \<Rightarrow> nat option" where
  "findIndex P [] = None"
| "findIndex P (x # xs) =
     (if P x then Some 0 else map_option Suc (findIndex P xs))"

fun replaceFirst :: "('a \<Rightarrow> bool) \<Rightarrow> ('a \<Rightarrow> 'a) \<Rightarrow> 'a list \<Rightarrow> 'a list" where
  "replaceFirst P g [] = []"
| "replaceFirst P g (x # xs) = (if P x then g x # xs else x # replaceFirst P g xs)"

section \<open>Data model (types.ts)\<close>

record StoredFile =
  file_id :: string
  file_name :: string
  file_type :: string
  file_size :: nat
  file_data :: "nat list"
  file_createdAt :: nat
  file_path :: string

record ReadingHistory =
  fileId :: string
  lastPage :: int
  lastReadAt :: nat
  totalPages :: "int option"

text \<open>The record of a PDF with the given id and path, for concrete inputs.\<close>

definition pdfRecord :: "string \<Rightarrow> string \<Rightarrow> StoredFile" where
  "pdfRecord i p =
     \<lparr>file_id = i, file_name = p, file_type = ''application/pdf'', file_size = 0,
      file_data = [], file_createdAt = 0, file_path = p\<rparr>"

section \<open>The file tree of the sidebar (Sidebar.tsx, treeData)\<close>

datatype NodeType = File | Folder

datatype TreeNode = TreeNode (node_id: string) (node_name: string) (node_path: string)
  (node_type: NodeType) (children: "TreeNode list") (node_fileId: "string option")
  (node_size: "nat option")

definition setChildren :: "TreeNode \<Rightarrow> TreeNode list \<Rightarrow> TreeNode" where
  "setChildren n ch =
     TreeNode (node_id n) (node_name n) (node_path n) (node_type n) ch (node_fileId n) (node_size n)"

text \<open>
  The inner loop \<^verbatim>\<open>parts.forEach((part, index) => ...)\<close> for one file: it walks
  down from \<open>currentLevel\<close>, finds the node of the part's name and kind or pushes a new
  one, and goes on in that node's children. A part is the file's leaf when it is the
  last one. The array is mutated in place; the function returns the level as it is
  after the loop.
\<close>

fun placeParts :: "StoredFile \<Rightarrow> string \<Rightarrow> string list \<Rightarrow> TreeNode list \<Rightarrow> TreeNode list" where
  "placeParts file currentPath [] currentLevel = currentLevel"
| "placeParts file currentPath (part # rest) currentLevel =
     (let isFile = (rest = []);
          currentPath' = (if currentPath \<noteq> [] then currentPath @ ''/'' @ part else part);
          wanted = (\<lambda>n. node_name n = part \<and> node_type n = (if isFile then File else Folder))
      in case find wanted currentLevel of
           None \<Rightarrow>
             currentLevel @
               [TreeNode (if isFile then file_id file else currentPath') part currentPath'
                  (if isFile then File else Folder)
                  (if isFile then [] else placeParts file currentPath' rest [])
                  (if isFile then Some (file_id file) else None)
                  (if isFile then Some (file_size file) else None)]
         | Some node \<Rightarrow>
             if isFile then currentLevel
             else replaceFirst wanted
                    (\<lambda>n. setChildren n (placeParts file currentPath' rest (children n)))
                    currentLevel)"

text \<open>The comparison of \<open>sortNodes\<close>: folders first, then by name.\<close>

definition compareNodes :: "(string \<Rightarrow> 'k::linorder) \<Rightarrow> TreeNode \<Rightarrow> TreeNode \<Rightarrow> int" where
  "compareNodes collate a b =
     (if node_type a = node_type b then localeCompare collate (node_name a) (node_name b)
      else if node_type a = Folder then - 1 else 1)"

lemma size_children: "size_list size (children n) < size n"
  by (cases n) simp

lemma size_children_member:
  "n \<in> set ns \<Longrightarrow> size_list size (children n) < size_list size ns"
proof (induction ns)
  case Nil
  then show ?case by simp
next
  case (Cons a ns)
  then show ?case
    using size_children [of a] by auto
qed

lemma set_insertSorted: "set (insertSorted cmp x ys) = insert x (set ys)"
  by (induction ys) auto

lemma set_jsSort: "set (jsSort cmp xs) = set xs"
  by (induction xs) (simp_all add: jsSort_def set_insertSorted)

function sortNodes :: "(string \<Rightarrow> 'k::linorder) \<Rightarrow> TreeNode list \<Rightarrow> TreeNode list" where
  "sortNodes collate nodes =
     map (\<lambda>node. if children node \<noteq> []
                  then setChildren node (sortNodes collate (children node)) else node)
       (jsSort (compareNodes collate) nodes)"
  by pat_completeness auto
termination
  by (relation "measure (\<lambda>(collate, nodes). size_list size nodes)")
     (auto simp: set_jsSort size_children_member)

declare sortNodes.simps [simp del]

text \<open>
  \<open>treeData\<close>: sort the files by path, place each file from the roots, sort the
  levels.
\<close>

definition parts :: "StoredFile \<Rightarrow> string list" where
  "parts file = split CHR ''/'' (cleanPath (file_path file))"

definition placeFile :: "StoredFile \<Rightarrow> TreeNode list \<Rightarrow> TreeNode list" where
  "placeFile file roots = placeParts file [] (parts file) roots"

definition treeData :: "(string \<Rightarrow> 'k::linorder) \<Rightarrow> StoredFile list \<Rightarrow> TreeNode list" where
  "treeData collate files =
     (let sortedFiles = jsSort (\<lambda>a b. localeCompare collate (file_path a) (file_path b)) files;
          roots = fold placeFile sortedFiles []
      in sortNodes collate roots)"

section \<open>Storage adapter (services/db)\<close>

text \<open>
  The two object stores are maps from their key (\<open>id\<close>, \<open>fileId\<close>) to the record.
  A request to the database may be rejected for reasons outside the program (quota, a
  blocked or closed connection): \<open>fails\<close> says which requests are. \<open>calls\<close> records
  the calls of the adapter's functions, in order; the code does not read it.
\<close>

datatype JsError = JsError (message: "string option")

datatype Store = STORE_FILES | STORE_HISTORY

datatype Request = OpenDb | Put Store string | Delete Store string

datatype Call = DeleteFile string | UpdateHistory string

record Db =
  store_files :: "string \<rightharpoonup> StoredFile"
  store_history :: "string \<rightharpoonup> ReadingHistory"
  calls :: "Call list"

definition storageError :: JsError where
  "storageError = JsError (Some ''The storage request failed'')"

definition deleteFile :: "(Request \<Rightarrow> bool) \<Rightarrow> string \<Rightarrow> Db \<Rightarrow> (JsError + unit) \<times> Db" where
  "deleteFile fails fid db0 =
     (let d = db0\<lparr>calls := calls db0 @ [DeleteFile fid]\<rparr> in
      if fails OpenDb then (Inl storageError, d)
      else if fails (Delete STORE_FILES fid) then (Inl storageError, d)
      else
        let d1 = d\<lparr>store_files := (store_files d)(fid := None)\<rparr> in
        if fails (Delete STORE_HISTORY fid) then (Inl storageError, d1)
        else (Inr (), d1\<lparr>store_history := (store_history d1)(fid := None)\<rparr>))"

definition updateHistory ::
  "(Request \<Rightarrow> bool) \<Rightarrow> nat \<Rightarrow> string \<Rightarrow> int \<Rightarrow> int option \<Rightarrow> Db \<Rightarrow> (JsError + unit) \<times> Db" where
  "updateHistory fails now fid page pageCount db0 =
     (let d = db0\<lparr>calls := calls db0 @ [UpdateHistory fid]\<rparr>;
          item = \<lparr>fileId = fid, lastPage = page, lastReadAt = now, totalPages = pageCount\<rparr> in
      if fails OpenDb then (Inl storageError, d)
      else if fails (Put STORE_HISTORY fid) then (Inl storageError, d)
      else (Inr (), d\<lparr>store_history := (store_history d)(fid \<mapsto> item)\<rparr>))"

section \<open>Application shell (App.tsx)\<close>

record AppState =
  files :: "StoredFile list"
  history :: "ReadingHistory list"
  activeFileId :: "string option"
  db :: Db

text \<open>
  \<open>handleFileDelete\<close>. The handler reads \<open>activeFileId\<close> from the render it was
  created in, which \<open>handleFileDeleteWith\<close> takes as \<open>active\<close>; the state updates are
  functions of the current state. A rejected deletion is caught and logged.
\<close>

definition handleFileDeleteWith ::
  "(Request \<Rightarrow> bool) \<Rightarrow> string option \<Rightarrow> string \<Rightarrow> AppState \<Rightarrow> AppState" where
  "handleFileDeleteWith fails active fid s =
     (case deleteFile fails fid (db s) of
        (Inr u, d) \<Rightarrow>
          s\<lparr>db := d,
            files := filter (\<lambda>f. file_id f \<noteq> fid) (files s),
            history := filter (\<lambda>h. fileId h \<noteq> fid) (history s),
            activeFileId := (if active = Some fid then None else activeFileId s)\<rparr>
      | (Inl err, d) \<Rightarrow> s\<lparr>db := d\<rparr>)"

definition handleFileDelete :: "(Request \<Rightarrow> bool) \<Rightarrow> string \<Rightarrow> AppState \<Rightarrow> AppState" where
  "handleFileDelete fails fid s = handleFileDeleteWith fails (activeFileId s) fid s"

text \<open>\<open>handleFolderDelete\<close> of App.tsx: the files to delete, then the loop over them.\<close>

definition filesToDelete :: "StoredFile list \<Rightarrow> string \<Rightarrow> StoredFile list" where
  "filesToDelete fs folderPath =
     filter (\<lambda>f. startsWith (cleanPath (file_path f)) (folderPath @ ''/'')) fs"

definition handleFolderDelete :: "(Request \<Rightarrow> bool) \<Rightarrow> string \<Rightarrow> AppState \<Rightarrow> AppState" where
  "handleFolderDelete fails folderPath s =
     fold (\<lambda>file. handleFileDeleteWith fails (activeFileId s) (file_id file))
       (filesToDelete (files s) folderPath) s"

text \<open>
  \<open>handlePageChange\<close> of App.tsx. \<open>now\<close> and \<open>now'\<close> are the two readings of the
  clock, for the stored and for the listed record. An \<open>activeFileId\<close> that is null
  or empty returns at once.
\<close>

definition handlePageChange ::
  "(Request \<Rightarrow> bool) \<Rightarrow> nat \<Rightarrow> nat \<Rightarrow> int \<Rightarrow> int \<Rightarrow> AppState \<Rightarrow> AppState" where
  "handlePageChange fails now now' page pageCount s =
     (case activeFileId s of
        None \<Rightarrow> s
      | Some active \<Rightarrow>
          if active = [] then s
          else
            (case updateHistory fails now active page (Some pageCount) (db s) of
               (Inl err, d) \<Rightarrow> s\<lparr>db := d\<rparr>
             | (Inr u, d) \<Rightarrow>
                 let newItem = \<lparr>fileId = active, lastPage = page, lastReadAt = now',
                                totalPages = Some pageCount\<rparr>
                 in s\<lparr>db := d,
                      history :=
                        (case findIndex (\<lambda>h. fileId h = active) (history s) of
                           Some existingIndex \<Rightarrow> (history s)[existingIndex := newItem]
                         | None \<Rightarrow> history s @ [newItem])\<rparr>))"

subsection \<open>The shell with the chat panel (second text of services/geminiService.ts)\<close>

text \<open>
  This older shell has a \<open>handleFolderDelete\<close> of its own, written \<open>_chat\<close> here. It
  asks for confirmation (\<open>confirmed\<close> is the answer), deletes the files in a loop with
  no handler around it, and updates the list after the loop; a rejected deletion leaves
  the function as a rejection.
\<close>

definition filesToDelete_chat :: "StoredFile list \<Rightarrow> string \<Rightarrow> StoredFile list" where
  "filesToDelete_chat fs folderPath =
     filter (\<lambda>f. file_path f = folderPath \<or> startsWith (file_path f) (folderPath @ ''/'')) fs"

fun deleteEach :: "(Request \<Rightarrow> bool) \<Rightarrow> StoredFile list \<Rightarrow> Db \<Rightarrow> (JsError + unit) \<times> Db" where
  "deleteEach fails [] d = (Inr (), d)"
| "deleteEach fails (file # rest) d =
     (case deleteFile fails (file_id file) d of
        (Inl err, d') \<Rightarrow> (Inl err, d')
      | (Inr u, d') \<Rightarrow> deleteEach fails rest d')"

definition handleFolderDelete_chat ::
  "(Request \<Rightarrow> bool) \<Rightarrow> bool \<Rightarrow> string \<Rightarrow> AppState \<Rightarrow> (JsError + unit) \<times> AppState" where
  "handleFolderDelete_chat fails confirmed folderPath s =
     (if \<not> confirmed then (Inr (), s)
      else
        let toDelete = filesToDelete_chat (files s) folderPath in
        case deleteEach fails toDelete (db s) of
          (Inl err, d) \<Rightarrow> (Inl err, s\<lparr>db := d\<rparr>)
        | (Inr u, d) \<Rightarrow>
            (Inr (),
             s\<lparr>db := d,
               files := filter (\<lambda>f. \<not> list_ex (\<lambda>del. file_id del = file_id f) toDelete) (files s),
               activeFileId :=
                 (case activeFileId s of
                    None \<Rightarrow> None
                  | Some active \<Rightarrow>
                      if active \<noteq> [] \<and> list_ex (\<lambda>f. file_id f = active) toDelete then None
                      else Some active)\<rparr>))"

section \<open>Reader view (PDFReader.tsx)\<close>















section \<open>AI query adapter and chat view (geminiService.ts, ChatPanel.tsx)\<close>













section \<open>Observations used to state the properties\<close>

text \<open>
  None of the following is code of the repository. \<open>joinParts\<close> puts the separator
  back between the parts of a path; it shows that \<open>split\<close> loses nothing.
\<close>

fun joinParts :: "char \<Rightarrow> string list \<Rightarrow> string" where
  "joinParts sep [] = []"
| "joinParts sep [p] = p"
| "joinParts sep (p # q # ps) = p @ sep # joinParts sep (q # ps)"

text \<open>
  The nodes of a tree and of a forest, parents before children, and those of them that
  are files.
\<close>

fun nodesOf :: "TreeNode \<Rightarrow> TreeNode list" where
  "nodesOf (TreeNode i n p t ch f s) = TreeNode i n p t ch f s # concat (map nodesOf ch)"

definition allNodes :: "TreeNode list \<Rightarrow> TreeNode list" where
  "allNodes forest = concat (map nodesOf forest)"

definition fileNodes :: "TreeNode list \<Rightarrow> TreeNode list" where
  "fileNodes forest = filter (\<lambda>n. node_type n = File) (allNodes forest)"

text \<open>
  The file nodes of a forest with their places: the place of a node is the list of the
  names on the way from a root down to it. \<open>forestEntries\<close> pairs the place of every
  file node with the \<open>fileId\<close> the node carries.
\<close>

fun fileEntries :: "TreeNode \<Rightarrow> (string list \<times> string option) list" where
  "fileEntries (TreeNode i n p t ch f s) =
     (if t = File then [([n], f)] else []) @
     map (\<lambda>(k, v). (n # k, v)) (concat (map fileEntries ch))"

definition forestEntries :: "TreeNode list \<Rightarrow> (string list \<times> string option) list" where
  "forestEntries forest = concat (map fileEntries forest)"

text \<open>
  The invariant of the forest while it is built: the nodes of one level differ in name or
  in kind, and a file node has no children.
\<close>

definition nodeKey :: "TreeNode \<Rightarrow> string \<times> NodeType" where
  "nodeKey n = (node_name n, node_type n)"

fun wfNode :: "TreeNode \<Rightarrow> bool" where
  "wfNode (TreeNode i n p t ch f s) =
     ((t = File \<longrightarrow> ch = []) \<and> distinct (map nodeKey ch) \<and> (\<forall>x \<in> set ch. wfNode x))"

definition wfForest :: "TreeNode list \<Rightarrow> bool" where
  "wfForest forest = (distinct (map nodeKey forest) \<and> (\<forall>x \<in> set forest. wfNode x))"

text \<open>The place and the id that the record of a file asks for.\<close>

definition entryOf :: "StoredFile \<Rightarrow> string list \<times> string option" where
  "entryOf file = (parts file, Some (file_id file))"

text \<open>
  One collation, for concrete inputs: the strings themselves, in the lexicographic order
  of their characters.
\<close>

definition codePoint :: "string \<Rightarrow> string" where
  "codePoint s = s"

text \<open>
  A collation that a host may have, for concrete inputs: it compares strings without
  regard to the case of the letters of ASCII first, and strings that differ in case only
  by their characters. The default collation of the browsers agrees with it on names such
  as \<open>a.pdf\<close> and \<open>B.pdf\<close>: it puts \<open>a.pdf\<close> first, where the order of the
  characters puts \<open>B.pdf\<close> first.
\<close>

definition lowerCase :: "char \<Rightarrow> char" where
  "lowerCase c =
     (case map_of (zip ''ABCDEFGHIJKLMNOPQRSTUVWXYZ'' ''abcdefghijklmnopqrstuvwxyz'') c of
        None \<Rightarrow> c
      | Some l \<Rightarrow> l)"

definition caseBlind :: "string \<Rightarrow> string list" where
  "caseBlind s = [map lowerCase s, s]"

text \<open>
  The order the sidebar lists nodes in: a folder before a file, and two nodes of one kind
  as \<open>localeCompare\<close> puts their names.
\<close>

definition comesBefore :: "(string \<Rightarrow> 'k::linorder) \<Rightarrow> TreeNode \<Rightarrow> TreeNode \<Rightarrow> bool" where
  "comesBefore collate a b =
     (if node_type a = node_type b
      then localeCompare collate (node_name a) (node_name b) \<le> 0
      else node_type a = Folder \<and> node_type b = File)"

fun orderedNode :: "(string \<Rightarrow> 'k::linorder) \<Rightarrow> TreeNode \<Rightarrow> bool" where
  "orderedNode collate (TreeNode i n p t ch f s) =
     (sorted_wrt (comesBefore collate) ch \<and> (\<forall>x \<in> set ch. orderedNode collate x))"

definition orderedForest :: "(string \<Rightarrow> 'k::linorder) \<Rightarrow> TreeNode list \<Rightarrow> bool" where
  "orderedForest collate forest =
     (sorted_wrt (comesBefore collate) forest \<and> (\<forall>x \<in> set forest. orderedNode collate x))"

text \<open>The names of all nodes of a forest.\<close>

definition forestNames :: "TreeNode list \<Rightarrow> string set" where
  "forestNames forest = node_name ` set (allNodes forest)"

text \<open>
  The function that \<open>handlePageChange\<close> passes to \<^verbatim>\<open>setHistory\<close>, on its own.
\<close>

definition upsert :: "ReadingHistory \<Rightarrow> ReadingHistory list \<Rightarrow> ReadingHistory list" where
  "upsert newItem prev =
     (case findIndex (\<lambda>h. fileId h = fileId newItem) prev of
        Some existingIndex \<Rightarrow> prev[existingIndex := newItem]
      | None \<Rightarrow> prev @ [newItem])"

text \<open>Every record of the history store is stored under its own \<open>fileId\<close>.\<close>

definition keyedByFileId :: "Db \<Rightarrow> bool" where
  "keyedByFileId d = (\<forall>k r. store_history d k = Some r \<longrightarrow> fileId r = k)"


text \<open>Concrete states, for the closed instances of the theorems.\<close>

definition library :: AppState where
  "library =
     \<lparr>files = [pdfRecord ''a'' ''Docs/b.pdf'', pdfRecord ''b'' ''Docs/c.pdf''],
      history = [\<lparr>fileId = ''a'', lastPage = 3, lastReadAt = 50, totalPages = Some 10\<rparr>,
                 \<lparr>fileId = ''b'', lastPage = 1, lastReadAt = 60, totalPages = Some 5\<rparr>],
      activeFileId = Some ''a'',
      db = \<lparr>store_files = [''a'' \<mapsto> pdfRecord ''a'' ''Docs/b.pdf'',
                            ''b'' \<mapsto> pdfRecord ''b'' ''Docs/c.pdf''],
            store_history =
              [''a'' \<mapsto> \<lparr>fileId = ''a'', lastPage = 3, lastReadAt = 50, totalPages = Some 10\<rparr>,
               ''b'' \<mapsto> \<lparr>fileId = ''b'', lastPage = 1, lastReadAt = 60, totalPages = Some 5\<rparr>],
            calls = []\<rparr>\<rparr>"



section \<open>Properties of the file tree\<close>

lemma startsWith_iff: "startsWith s p \<longleftrightarrow> (\<exists>r. s = p @ r)"
  by (induction s p rule: startsWith.induct) auto

lemma split_not_Nil: "split sep s \<noteq> []"
  by (induction s) auto

lemma joinParts_Cons: "ps \<noteq> [] \<Longrightarrow> joinParts sep (p # ps) = p @ sep # joinParts sep ps"
  by (cases ps) auto

lemma joinParts_split: "joinParts sep (split sep s) = s"
proof (induction s)
  case Nil
  then show ?case by simp
next
  case (Cons c s)
  obtain p ps where ps: "split sep s = p # ps"
    using split_not_Nil [of sep s] by (cases "split sep s") auto
  show ?case
  proof (cases "c = sep")
    case True
    then show ?thesis using Cons ps by (simp add: joinParts_Cons)
  next
    case False
    then show ?thesis using Cons ps by (cases ps) auto
  qed
qed

lemma split_inj: "split sep s = split sep t \<Longrightarrow> s = t"
  by (metis joinParts_split)

lemma mset_insertSorted: "mset (insertSorted cmp x ys) = add_mset x (mset ys)"
  by (induction ys) auto

lemma mset_jsSort: "mset (jsSort cmp xs) = mset xs"
  by (induction xs) (simp_all add: jsSort_def mset_insertSorted)

lemma insertSorted_insort_key:
  assumes "\<And>a b. (cmp a b \<le> 0) = (key a \<le> key b)"
  shows "insertSorted cmp x ys = insort_key key x ys"
  by (induction ys) (simp_all add: assms)

lemma jsSort_sort_key:
  assumes "\<And>a b. (cmp a b \<le> 0) = (key a \<le> key b)"
  shows "jsSort cmp xs = sort_key key xs"
  by (induction xs) (simp_all add: jsSort_def sort_key_def insertSorted_insort_key [OF assms])

lemma localeCompare_le: "(localeCompare collate a b \<le> 0) = (collate a \<le> collate b)"
  by (auto simp: localeCompare_def)

lemma sortedFiles_sort_key:
  "jsSort (\<lambda>a b. localeCompare collate (file_path a) (file_path b)) fs =
   sort_key (\<lambda>f. collate (file_path f)) fs"
  by (rule jsSort_sort_key) (simp add: localeCompare_le)

lemma sorted_wrt_insertSorted:
  assumes tot: "\<And>a b. cmp a b \<le> 0 \<or> cmp b a \<le> 0"
    and tr: "\<And>a b c. cmp a b \<le> 0 \<Longrightarrow> cmp b c \<le> 0 \<Longrightarrow> cmp a c \<le> 0"
  shows "sorted_wrt (\<lambda>a b. cmp a b \<le> 0) ys \<Longrightarrow> sorted_wrt (\<lambda>a b. cmp a b \<le> 0) (insertSorted cmp x ys)"
proof (induction ys)
  case Nil
  then show ?case by simp
next
  case (Cons y ys)
  show ?case
  proof (cases "cmp x y \<le> 0")
    case True
    then show ?thesis using Cons.prems tr by auto
  next
    case False
    then have "cmp y x \<le> 0" using tot [of x y] by simp
    then show ?thesis using False Cons by (auto simp: set_insertSorted)
  qed
qed

lemma sorted_wrt_jsSort:
  assumes tot: "\<And>a b. cmp a b \<le> 0 \<or> cmp b a \<le> 0"
    and tr: "\<And>a b c. cmp a b \<le> 0 \<Longrightarrow> cmp b c \<le> 0 \<Longrightarrow> cmp a c \<le> 0"
  shows "sorted_wrt (\<lambda>a b. cmp a b \<le> 0) (jsSort cmp xs)"
  by (induction xs) (simp_all add: jsSort_def sorted_wrt_insertSorted [OF tot tr])

lemma forestEntries_simps [simp]:
  "forestEntries [] = []"
  "forestEntries (x # xs) = fileEntries x @ forestEntries xs"
  "forestEntries (xs @ ys) = forestEntries xs @ forestEntries ys"
  by (simp_all add: forestEntries_def)

lemma fileEntries_sel:
  "fileEntries n =
     (if node_type n = File then [([node_name n], node_fileId n)] else []) @
     map (\<lambda>(k, v). (node_name n # k, v)) (forestEntries (children n))"
  by (cases n) (simp add: forestEntries_def)

lemma wfNode_sel:
  "wfNode n = ((node_type n = File \<longrightarrow> children n = []) \<and> wfForest (children n))"
  by (cases n) (simp add: wfForest_def)

lemma setChildren_sel [simp]:
  "node_name (setChildren n ch) = node_name n"
  "node_type (setChildren n ch) = node_type n"
  "node_fileId (setChildren n ch) = node_fileId n"
  "children (setChildren n ch) = ch"
  "nodeKey (setChildren n ch) = nodeKey n"
  by (simp_all add: setChildren_def nodeKey_def)

lemma find_replaceFirst:
  "find P xs = Some x \<Longrightarrow>
   \<exists>ys zs. xs = ys @ x # zs \<and> P x \<and> (\<forall>y \<in> set ys. \<not> P y) \<and>
     replaceFirst P g xs = ys @ g x # zs"
proof (induction xs)
  case Nil
  then show ?case by simp
next
  case (Cons a xs)
  show ?case
  proof (cases "P a")
    case True
    then have "a = x" using Cons.prems by simp
    then show ?thesis using True by (intro exI [of _ "[]"] exI [of _ xs]) simp
  next
    case False
    then have "find P xs = Some x" using Cons.prems by simp
    then obtain ys zs where "xs = ys @ x # zs" "P x" "\<forall>y \<in> set ys. \<not> P y"
      "replaceFirst P g xs = ys @ g x # zs"
      using Cons.IH by blast
    then show ?thesis using False
      by (intro exI [of _ "a # ys"] exI [of _ zs]) simp
  qed
qed

lemma entry_key_nonempty: "(k, v) \<in> set (fileEntries n) \<Longrightarrow> k \<noteq> []"
  by (cases n) (auto split: if_splits)

lemma forest_key_nonempty: "(k, v) \<in> set (forestEntries ns) \<Longrightarrow> k \<noteq> []"
  by (auto simp: forestEntries_def dest: entry_key_nonempty)

lemma leaf_entry_iff:
  "([k], v) \<in> set (forestEntries ns) \<longleftrightarrow>
     (\<exists>x \<in> set ns. node_type x = File \<and> node_name x = k \<and> node_fileId x = v)"
proof (induction ns)
  case Nil
  then show ?case by simp
next
  case (Cons a ns)
  have "([k], v) \<in> set (fileEntries a) \<longleftrightarrow>
      (node_type a = File \<and> node_name a = k \<and> node_fileId a = v)"
    by (auto simp: fileEntries_sel [of a] dest: forest_key_nonempty)
  then show ?case using Cons by auto
qed

lemma deep_entry_iff:
  "r \<noteq> [] \<Longrightarrow> (k # r, v) \<in> set (forestEntries ns) \<longleftrightarrow>
     (\<exists>x \<in> set ns. node_name x = k \<and> (r, v) \<in> set (forestEntries (children x)))"
proof (induction ns)
  case Nil
  then show ?case by simp
next
  case (Cons a ns)
  have "(k # r, v) \<in> set (fileEntries a) \<longleftrightarrow>
      (node_name a = k \<and> (r, v) \<in> set (forestEntries (children a)))"
    using Cons.prems by (auto simp: fileEntries_sel [of a])
  then show ?case using Cons by auto
qed

lemma wfForest_append1:
  "wfForest (ns @ [n]) \<longleftrightarrow> wfForest ns \<and> wfNode n \<and> nodeKey n \<notin> nodeKey ` set ns"
  by (auto simp: wfForest_def)

lemma wfForest_replace:
  assumes "wfForest (ys @ x # zs)" "nodeKey x' = nodeKey x" "wfNode x'"
  shows "wfForest (ys @ x' # zs)"
  using assms by (auto simp: wfForest_def)

lemma wfForest_unique:
  assumes "wfForest ns" "x \<in> set ns" "y \<in> set ns" "nodeKey x = nodeKey y"
  shows "x = y"
  using assms by (auto simp: wfForest_def distinct_map inj_on_def)

lemma folder_entries:
  "node_type n = Folder \<Longrightarrow>
   fileEntries n = map (\<lambda>(k, v). (node_name n # k, v)) (forestEntries (children n))"
  by (simp add: fileEntries_sel [of n])

lemma placeParts_entries:
  assumes "wfForest level" "ps \<noteq> []"
  shows "wfForest (placeParts file cp ps level) \<and>
    mset (forestEntries (placeParts file cp ps level)) =
      (if ps \<in> fst ` set (forestEntries level) then mset (forestEntries level)
       else add_mset (ps, Some (file_id file)) (mset (forestEntries level)))"
  using assms
proof (induction ps arbitrary: cp level)
  case Nil
  then show ?case by simp
next
  case (Cons part rest)
  define cp' where "cp' = (if cp \<noteq> [] then cp @ ''/'' @ part else part)"
  show ?case
  proof (cases "rest = []")
    case True
    define wanted where "wanted = (\<lambda>n. node_name n = part \<and> node_type n = File)"
    have key: "[part] \<in> fst ` set (forestEntries level) \<longleftrightarrow> (\<exists>x \<in> set level. wanted x)"
      using leaf_entry_iff [of part _ level] by (force simp: wanted_def)
    show ?thesis
    proof (cases "find wanted level")
      case None
      then have no: "\<not> (\<exists>x \<in> set level. wanted x)"
        by (auto simp: find_None_iff)
      have res: "placeParts file cp (part # rest) level =
          level @ [TreeNode (file_id file) part cp' File [] (Some (file_id file)) (Some (file_size file))]"
        using True None by (simp add: wanted_def cp'_def Let_def)
      have "nodeKey (TreeNode (file_id file) part cp' File [] (Some (file_id file)) (Some (file_size file)))
          \<notin> nodeKey ` set level"
        using no by (auto simp: wanted_def nodeKey_def)
      then show ?thesis
        unfolding res using Cons.prems(1) key no True by (simp add: wfForest_append1)
    next
      case (Some node)
      then have "\<exists>x \<in> set level. wanted x"
        by (auto simp: find_Some_iff)
      moreover have res: "placeParts file cp (part # rest) level = level"
        using True Some by (simp add: wanted_def Let_def)
      ultimately show ?thesis
        unfolding res using Cons.prems(1) key True by simp
    qed
  next
    case False
    define wanted where "wanted = (\<lambda>n. node_name n = part \<and> node_type n = Folder)"
    show ?thesis
    proof (cases "find wanted level")
      case None
      then have no: "\<not> (\<exists>x \<in> set level. wanted x)"
        by (auto simp: find_None_iff)
      define sub where "sub = placeParts file cp' rest []"
      have res: "placeParts file cp (part # rest) level =
          level @ [TreeNode cp' part cp' Folder sub None None]"
        using False None by (simp add: wanted_def cp'_def sub_def Let_def)
      have ih: "wfForest sub \<and> mset (forestEntries sub) = {#(rest, Some (file_id file))#}"
        using Cons.IH [of "[]" cp'] False by (simp add: sub_def wfForest_def)
      have notin: "part # rest \<notin> fst ` set (forestEntries level)"
      proof
        assume "part # rest \<in> fst ` set (forestEntries level)"
        then obtain v where "(part # rest, v) \<in> set (forestEntries level)" by auto
        then obtain x where x: "x \<in> set level" "node_name x = part"
            "(rest, v) \<in> set (forestEntries (children x))"
          using deep_entry_iff [OF False] by blast
        then have "children x \<noteq> []" by auto
        moreover have "wfNode x" using Cons.prems(1) x(1) by (simp add: wfForest_def)
        ultimately have "node_type x = Folder"
          by (cases "node_type x") (auto simp: wfNode_sel [of x])
        then show False using no x by (auto simp: wanted_def)
      qed
      have "nodeKey (TreeNode cp' part cp' Folder sub None None) \<notin> nodeKey ` set level"
        using no by (auto simp: wanted_def nodeKey_def)
      moreover have "wfNode (TreeNode cp' part cp' Folder sub None None)"
        using ih by (simp add: wfForest_def)
      moreover have "mset (fileEntries (TreeNode cp' part cp' Folder sub None None)) =
          {#(part # rest, Some (file_id file))#}"
      proof -
        have "mset (fileEntries (TreeNode cp' part cp' Folder sub None None)) =
            image_mset (\<lambda>(k, v). (part # k, v)) (mset (forestEntries sub))"
          by (simp add: forestEntries_def)
        then show ?thesis using ih by simp
      qed
      ultimately show ?thesis
        unfolding res using Cons.prems(1) notin by (simp add: wfForest_append1)
    next
      case (Some node)
      define g where "g = (\<lambda>n. setChildren n (placeParts file cp' rest (children n)))"
      obtain ys zs where sp: "level = ys @ node # zs" "wanted node"
          "replaceFirst wanted g level = ys @ g node # zs"
        using find_replaceFirst [OF Some, of g] by blast
      have res: "placeParts file cp (part # rest) level = ys @ g node # zs"
        using False Some sp(3) by (simp add: wanted_def cp'_def g_def Let_def)
      have wfn: "wfNode node" using Cons.prems(1) sp(1) by (simp add: wfForest_def)
      then have wfc: "wfForest (children node)" by (simp add: wfNode_sel [of node])
      have folder: "node_type node = Folder" "node_name node = part"
        using sp(2) by (simp_all add: wanted_def)
      have ih: "wfForest (children (g node)) \<and>
          mset (forestEntries (children (g node))) =
           (if rest \<in> fst ` set (forestEntries (children node))
            then mset (forestEntries (children node))
            else add_mset (rest, Some (file_id file)) (mset (forestEntries (children node))))"
        using Cons.IH [OF wfc False, of cp'] by (simp add: g_def)
      have gkey: "nodeKey (g node) = nodeKey node" and gtype: "node_type (g node) = Folder"
        and gname: "node_name (g node) = part"
        using folder by (simp_all add: g_def)
      have "wfNode (g node)" using ih gtype by (simp add: wfNode_sel [of "g node"])
      then have wf': "wfForest (ys @ g node # zs)"
        using wfForest_replace [of ys node zs "g node"] Cons.prems(1) sp(1) gkey by simp
      have iff: "part # rest \<in> fst ` set (forestEntries level) \<longleftrightarrow>
          rest \<in> fst ` set (forestEntries (children node))"
      proof
        assume "part # rest \<in> fst ` set (forestEntries level)"
        then obtain v where "(part # rest, v) \<in> set (forestEntries level)" by auto
        then obtain x where x: "x \<in> set level" "node_name x = part"
            "(rest, v) \<in> set (forestEntries (children x))"
          using deep_entry_iff [OF False] by blast
        then have "children x \<noteq> []" by auto
        moreover have "wfNode x" using Cons.prems(1) x(1) by (simp add: wfForest_def)
        ultimately have "node_type x = Folder"
          by (cases "node_type x") (auto simp: wfNode_sel [of x])
        then have "nodeKey x = nodeKey node" using x(2) folder by (simp add: nodeKey_def)
        then have "x = node"
          using wfForest_unique [OF Cons.prems(1) x(1)] sp(1) by simp
        then show "rest \<in> fst ` set (forestEntries (children node))"
          using x(3) by force
      next
        assume "rest \<in> fst ` set (forestEntries (children node))"
        then obtain v where "(rest, v) \<in> set (forestEntries (children node))" by auto
        then have "(part # rest, v) \<in> set (forestEntries level)"
          using deep_entry_iff [OF False, of part v level] sp(1) folder by auto
        then show "part # rest \<in> fst ` set (forestEntries level)" by force
      qed
      have e1: "mset (fileEntries (g node)) =
          image_mset (\<lambda>(k, v). (part # k, v)) (mset (forestEntries (children (g node))))"
        using gtype gname by (simp add: folder_entries)
      have e2: "mset (fileEntries node) =
          image_mset (\<lambda>(k, v). (part # k, v)) (mset (forestEntries (children node)))"
        using folder by (simp add: folder_entries)
      have lvl: "mset (forestEntries level) =
          mset (forestEntries ys) + mset (fileEntries node) + mset (forestEntries zs)"
        by (simp add: sp(1))
      have new: "mset (forestEntries (ys @ g node # zs)) =
          mset (forestEntries ys) + mset (fileEntries (g node)) + mset (forestEntries zs)"
        by simp
      have "mset (forestEntries (ys @ g node # zs)) =
          (if part # rest \<in> fst ` set (forestEntries level) then mset (forestEntries level)
           else add_mset (part # rest, Some (file_id file)) (mset (forestEntries level)))"
      proof (cases "rest \<in> fst ` set (forestEntries (children node))")
        case True
        then have "mset (fileEntries (g node)) = mset (fileEntries node)"
          using ih e1 e2 by simp
        then show ?thesis using True iff lvl new by simp
      next
        case False
        then have "mset (fileEntries (g node)) =
            add_mset (part # rest, Some (file_id file)) (mset (fileEntries node))"
          using ih e1 e2 by simp
        then show ?thesis using False iff lvl new by simp
      qed
      then show ?thesis unfolding res using wf' by simp
    qed
  qed
qed

lemma placeFile_parts: "placeFile file roots = placeParts file [] (parts file) roots"
  by (simp add: placeFile_def parts_def)

lemma parts_not_Nil: "parts file \<noteq> []"
  by (simp add: parts_def split_not_Nil)

lemma placeFile_entries:
  assumes "wfForest roots"
  shows "wfForest (placeFile file roots)"
    and "mset (forestEntries (placeFile file roots)) =
      (if parts file \<in> fst ` set (forestEntries roots) then mset (forestEntries roots)
       else add_mset (parts file, Some (file_id file)) (mset (forestEntries roots)))"
  using placeParts_entries [OF assms parts_not_Nil [of "file"], of "file" "[]"]
  by (simp_all add: placeFile_parts)

lemma fold_placeFile:
  assumes "wfForest roots" "distinct (map fst (forestEntries roots))"
  shows "wfForest (fold placeFile fs roots) \<and>
    distinct (map fst (forestEntries (fold placeFile fs roots))) \<and>
    fst ` set (forestEntries (fold placeFile fs roots)) =
      fst ` set (forestEntries roots) \<union> parts ` set fs \<and>
    set (forestEntries (fold placeFile fs roots)) \<subseteq> set (forestEntries roots) \<union> entryOf ` set fs"
  using assms
proof (induction fs arbitrary: roots)
  case Nil
  then show ?case by simp
next
  case (Cons f fs)
  let ?r = "placeFile f roots"
  have wf: "wfForest ?r" using placeFile_entries(1) [OF Cons.prems(1)] .
  have ms: "mset (forestEntries ?r) =
      (if parts f \<in> fst ` set (forestEntries roots) then mset (forestEntries roots)
       else add_mset (parts f, Some (file_id f)) (mset (forestEntries roots)))"
    using placeFile_entries(2) [OF Cons.prems(1)] .
  have keys: "fst ` set (forestEntries ?r) = insert (parts f) (fst ` set (forestEntries roots))"
  proof -
    have "set (forestEntries ?r) = set_mset (mset (forestEntries ?r))" by simp
    also have "\<dots> = (if parts f \<in> fst ` set (forestEntries roots) then set (forestEntries roots)
       else insert (parts f, Some (file_id f)) (set (forestEntries roots)))"
      unfolding ms by simp
    finally show ?thesis by auto
  qed
  have sub: "set (forestEntries ?r) \<subseteq> insert (entryOf f) (set (forestEntries roots))"
  proof -
    have "set (forestEntries ?r) = set_mset (mset (forestEntries ?r))" by simp
    also have "\<dots> \<subseteq> insert (entryOf f) (set (forestEntries roots))"
      unfolding ms by (auto simp: entryOf_def)
    finally show ?thesis .
  qed
  have dist: "distinct (map fst (forestEntries ?r))"
  proof (cases "parts f \<in> fst ` set (forestEntries roots)")
    case True
    then have "mset (map fst (forestEntries ?r)) = mset (map fst (forestEntries roots))"
      using ms by simp
    then show ?thesis using Cons.prems(2) mset_eq_imp_distinct_iff by blast
  next
    case False
    then have "mset (map fst (forestEntries ?r)) = mset (parts f # map fst (forestEntries roots))"
      using ms by simp
    moreover have "distinct (parts f # map fst (forestEntries roots))"
      using False Cons.prems(2) by simp
    ultimately show ?thesis using mset_eq_imp_distinct_iff by blast
  qed
  show ?case
    using Cons.IH [OF wf dist] keys sub by auto
qed

lemma fold_placeFile_distinct:
  assumes "wfForest roots" "distinct (map parts fs)"
    "parts ` set fs \<inter> fst ` set (forestEntries roots) = {}"
  shows "mset (forestEntries (fold placeFile fs roots)) =
    mset (forestEntries roots) + mset (map entryOf fs)"
  using assms
proof (induction fs arbitrary: roots)
  case Nil
  then show ?case by simp
next
  case (Cons f fs)
  let ?r = "placeFile f roots"
  have wf: "wfForest ?r" using placeFile_entries(1) [OF Cons.prems(1)] .
  have ms: "mset (forestEntries ?r) = add_mset (entryOf f) (mset (forestEntries roots))"
    using placeFile_entries(2) [OF Cons.prems(1), of f] Cons.prems(3) by (auto simp: entryOf_def)
  have "set (forestEntries ?r) = set_mset (mset (forestEntries ?r))" by simp
  then have "fst ` set (forestEntries ?r) = insert (parts f) (fst ` set (forestEntries roots))"
    unfolding ms by (simp add: entryOf_def)
  then have "parts ` set fs \<inter> fst ` set (forestEntries ?r) = {}"
    using Cons.prems(2,3) by auto
  then show ?case
    using Cons.IH [OF wf] Cons.prems(2) ms by simp
qed

lemma entries_insertSorted:
  "mset (forestEntries (insertSorted cmp x ys)) = mset (fileEntries x) + mset (forestEntries ys)"
  by (induction ys) auto

lemma entries_jsSort: "mset (forestEntries (jsSort cmp xs)) = mset (forestEntries xs)"
  by (induction xs) (simp_all add: jsSort_def entries_insertSorted)

lemma entries_map:
  "(\<And>x. x \<in> set xs \<Longrightarrow> mset (fileEntries (g x)) = mset (fileEntries x)) \<Longrightarrow>
   mset (forestEntries (map g xs)) = mset (forestEntries xs)"
  by (induction xs) auto

lemma sortNodes_entries:
  "mset (forestEntries (sortNodes collate nodes)) = mset (forestEntries nodes)"
proof (induction collate nodes rule: sortNodes.induct)
  case (1 collate nodes)
  define g where "g = (\<lambda>node. if children node \<noteq> []
      then setChildren node (sortNodes collate (children node)) else node)"
  have "mset (fileEntries (g x)) = mset (fileEntries x)"
    if "x \<in> set (jsSort (compareNodes collate) nodes)" for x
  proof (cases "children x = []")
    case True
    then show ?thesis by (simp add: g_def)
  next
    case False
    then have "mset (forestEntries (sortNodes collate (children x))) = mset (forestEntries (children x))"
      using "1.IH" that by simp
    then show ?thesis
      using False by (simp add: g_def fileEntries_sel [of "setChildren x _"] fileEntries_sel [of x])
  qed
  then have "mset (forestEntries (map g (jsSort (compareNodes collate) nodes))) =
      mset (forestEntries (jsSort (compareNodes collate) nodes))"
    by (rule entries_map)
  moreover have "sortNodes collate nodes = map g (jsSort (compareNodes collate) nodes)"
    by (subst sortNodes.simps) (simp add: g_def)
  ultimately show ?case by (simp add: entries_jsSort)
qed

lemma entries_fileNodes_node:
  "map snd (fileEntries n) = map node_fileId (filter (\<lambda>x. node_type x = File) (nodesOf n))"
proof (induction n)
  case (TreeNode i n p t ch f s)
  have "map snd (concat (map fileEntries ch)) =
      map node_fileId (filter (\<lambda>x. node_type x = File) (concat (map nodesOf ch)))"
    using TreeNode by (induction ch) auto
  then show ?case by (simp add: map_concat comp_def case_prod_unfold)
qed

lemma entries_fileNodes:
  "map snd (forestEntries forest) = map node_fileId (fileNodes forest)"
  by (induction forest)
     (simp_all add: fileNodes_def allNodes_def forestEntries_def entries_fileNodes_node)

lemma orderedForest_Nil: "orderedForest collate []"
  by (simp add: orderedForest_def)

lemma orderedNode_sel: "orderedNode collate n = orderedForest collate (children n)"
  by (cases n) (simp add: orderedForest_def)

lemma compareNodes_le: "(compareNodes collate a b \<le> 0) = comesBefore collate a b"
  by (cases "node_type a"; cases "node_type b")
     (auto simp: compareNodes_def comesBefore_def)

lemma comesBefore_total: "comesBefore collate a b \<or> comesBefore collate b a"
  by (cases "node_type a"; cases "node_type b") (auto simp: comesBefore_def localeCompare_le)

lemma comesBefore_trans:
  "comesBefore collate a b \<Longrightarrow> comesBefore collate b c \<Longrightarrow> comesBefore collate a c"
  by (cases "node_type a"; cases "node_type b"; cases "node_type c")
     (auto simp: comesBefore_def localeCompare_le)

lemma sorted_jsSort_nodes:
  "sorted_wrt (comesBefore collate) (jsSort (compareNodes collate) nodes)"
proof -
  have "sorted_wrt (\<lambda>a b. compareNodes collate a b \<le> 0) (jsSort (compareNodes collate) nodes)"
  proof (rule sorted_wrt_jsSort)
    show "compareNodes collate a b \<le> 0 \<or> compareNodes collate b a \<le> 0" for a b
      using comesBefore_total [of collate a b] by (simp add: compareNodes_le)
    show "compareNodes collate a b \<le> 0 \<Longrightarrow> compareNodes collate b c \<le> 0 \<Longrightarrow>
        compareNodes collate a c \<le> 0" for a b c
      using comesBefore_trans [of collate a b c] by (simp add: compareNodes_le)
  qed
  then show ?thesis by (simp add: compareNodes_le)
qed

lemma sortNodes_ordered: "orderedForest collate (sortNodes collate nodes)"
proof (induction collate nodes rule: sortNodes.induct)
  case (1 collate nodes)
  define g where "g = (\<lambda>node. if children node \<noteq> []
      then setChildren node (sortNodes collate (children node)) else node)"
  have eq: "sortNodes collate nodes = map g (jsSort (compareNodes collate) nodes)"
    by (subst sortNodes.simps) (simp add: g_def)
  have same: "comesBefore collate (g a) (g b) = comesBefore collate a b" for a b
    by (simp add: g_def comesBefore_def)
  have "sorted_wrt (comesBefore collate) (map g (jsSort (compareNodes collate) nodes))"
    using sorted_jsSort_nodes [of collate nodes] by (simp add: sorted_wrt_map same)
  moreover have "orderedNode collate (g x)"
    if "x \<in> set (jsSort (compareNodes collate) nodes)" for x
  proof (cases "children x = []")
    case True
    then show ?thesis by (simp add: g_def orderedNode_sel orderedForest_Nil)
  next
    case False
    then show ?thesis using "1.IH" that by (simp add: g_def orderedNode_sel)
  qed
  ultimately show ?case by (simp add: eq orderedForest_def)
qed

lemma allNodes_simps [simp]:
  "allNodes [] = []"
  "allNodes (x # xs) = nodesOf x @ allNodes xs"
  "allNodes (xs @ ys) = allNodes xs @ allNodes ys"
  by (simp_all add: allNodes_def)

lemma nodesOf_sel: "nodesOf n = n # allNodes (children n)"
  by (cases n) (simp add: allNodes_def)

lemma forestNames_simps [simp]:
  "forestNames [] = {}"
  "forestNames (x # xs) = insert (node_name x) (forestNames (children x)) \<union> forestNames xs"
  "forestNames (xs @ ys) = forestNames xs \<union> forestNames ys"
  by (auto simp: forestNames_def nodesOf_sel)

lemma forestNames_member: "x \<in> set ns \<Longrightarrow> node_name x \<in> forestNames ns"
  by (induction ns) auto

lemma names_placeParts:
  "forestNames (placeParts file cp ps level) = forestNames level \<union> set ps"
proof (induction ps arbitrary: cp level)
  case Nil
  then show ?case by simp
next
  case (Cons part rest)
  define cp' where "cp' = (if cp \<noteq> [] then cp @ ''/'' @ part else part)"
  define wanted where
    "wanted = (\<lambda>n. node_name n = part \<and> node_type n = (if rest = [] then File else Folder))"
  show ?case
  proof (cases "find wanted level")
    case None
    have res: "placeParts file cp (part # rest) level =
        level @ [TreeNode (if rest = [] then file_id file else cp') part cp'
          (if rest = [] then File else Folder)
          (if rest = [] then [] else placeParts file cp' rest [])
          (if rest = [] then Some (file_id file) else None)
          (if rest = [] then Some (file_size file) else None)]"
      using None by (simp add: wanted_def cp'_def Let_def)
    show ?thesis unfolding res using Cons.IH [of cp' "[]"] by auto
  next
    case (Some node)
    define g where "g = (\<lambda>n. setChildren n (placeParts file cp' rest (children n)))"
    obtain ys zs where sp: "level = ys @ node # zs" "wanted node"
        "replaceFirst wanted g level = ys @ g node # zs"
      using find_replaceFirst [OF Some, of g] by blast
    have name: "node_name node = part" using sp(2) by (simp add: wanted_def)
    show ?thesis
    proof (cases "rest = []")
      case True
      then have res: "placeParts file cp (part # rest) level = level"
        using Some by (simp add: wanted_def Let_def)
      show ?thesis unfolding res using True name sp(1) by auto
    next
      case False
      then have res: "placeParts file cp (part # rest) level = ys @ g node # zs"
        using Some sp(3) by (simp add: wanted_def cp'_def g_def Let_def)
      have "forestNames (children (g node)) = forestNames (children node) \<union> set rest"
        using Cons.IH [of cp' "children node"] by (simp add: g_def)
      moreover have "node_name (g node) = part" using name by (simp add: g_def)
      ultimately show ?thesis unfolding res using name sp(1) by auto
    qed
  qed
qed

lemma names_fold_placeFile:
  "forestNames (fold placeFile fs roots) = forestNames roots \<union> (\<Union>f \<in> set fs. set (parts f))"
  by (induction fs arbitrary: roots) (auto simp: placeFile_parts names_placeParts)

lemma names_insertSorted:
  "forestNames (insertSorted cmp x ys) = forestNames [x] \<union> forestNames ys"
  by (induction ys) auto

lemma names_jsSort: "forestNames (jsSort cmp xs) = forestNames xs"
  by (induction xs) (auto simp: jsSort_def names_insertSorted)

lemma names_map:
  "(\<And>x. x \<in> set xs \<Longrightarrow> forestNames [g x] = forestNames [x]) \<Longrightarrow>
   forestNames (map g xs) = forestNames xs"
  by (induction xs) auto

lemma names_sortNodes: "forestNames (sortNodes collate nodes) = forestNames nodes"
proof (induction collate nodes rule: sortNodes.induct)
  case (1 collate nodes)
  define g where "g = (\<lambda>node. if children node \<noteq> []
      then setChildren node (sortNodes collate (children node)) else node)"
  have eq: "sortNodes collate nodes = map g (jsSort (compareNodes collate) nodes)"
    by (subst sortNodes.simps) (simp add: g_def)
  have "forestNames [g x] = forestNames [x]"
    if "x \<in> set (jsSort (compareNodes collate) nodes)" for x
    using "1.IH" that by (cases "children x = []") (simp_all add: g_def)
  then have "forestNames (map g (jsSort (compareNodes collate) nodes)) =
      forestNames (jsSort (compareNodes collate) nodes)"
    by (rule names_map)
  then show ?case by (simp add: eq names_jsSort)
qed

lemma treeData_names:
  "node_name ` set (allNodes (treeData collate fs)) = (\<Union>f \<in> set fs. set (parts f))"
proof -
  have "forestNames (treeData collate fs) = (\<Union>f \<in> set fs. set (parts f))"
    by (simp add: treeData_def names_sortNodes names_fold_placeFile set_jsSort)
  then show ?thesis by (simp add: forestNames_def)
qed

lemma treeData_entries:
  "distinct (map fst (forestEntries (treeData collate fs))) \<and>
   fst ` set (forestEntries (treeData collate fs)) = parts ` set fs \<and>
   set (forestEntries (treeData collate fs)) \<subseteq> entryOf ` set fs"
proof -
  define S where "S = jsSort (\<lambda>a b. localeCompare collate (file_path a) (file_path b)) fs"
  define R where "R = fold placeFile S []"
  have F: "treeData collate fs = sortNodes collate R"
    by (simp add: treeData_def S_def R_def)
  have R: "distinct (map fst (forestEntries R))"
    "fst ` set (forestEntries R) = parts ` set fs"
    "set (forestEntries R) \<subseteq> entryOf ` set fs"
    using fold_placeFile [of "[]" S] by (simp_all add: R_def wfForest_def S_def set_jsSort)
  have ms: "mset (forestEntries (sortNodes collate R)) = mset (forestEntries R)"
    by (rule sortNodes_entries)
  then have st: "set (forestEntries (sortNodes collate R)) = set (forestEntries R)"
    by (rule mset_eq_setD)
  have "mset (map fst (forestEntries (sortNodes collate R))) = mset (map fst (forestEntries R))"
    using ms by simp
  then have "distinct (map fst (forestEntries (sortNodes collate R)))"
    using R(1) mset_eq_imp_distinct_iff by blast
  then show ?thesis using R st by (simp add: F)
qed

lemma card_parts: "card (parts ` set fs) = card ((\<lambda>f. cleanPath (file_path f)) ` set fs)"
proof -
  have "parts ` set fs = split CHR ''/'' ` ((\<lambda>f. cleanPath (file_path f)) ` set fs)"
    by (auto simp: parts_def)
  moreover have "inj_on (split CHR ''/'') A" for A
    by (rule inj_onI) (rule split_inj)
  ultimately show ?thesis by (simp add: card_image)
qed

lemma treeData_count:
  "length (fileNodes (treeData collate fs)) = card ((\<lambda>f. cleanPath (file_path f)) ` set fs)"
proof -
  let ?F = "treeData collate fs"
  have "length (fileNodes ?F) = length (map fst (forestEntries ?F))"
    using entries_fileNodes [of ?F] by (metis length_map)
  also have "\<dots> = card (set (map fst (forestEntries ?F)))"
    using treeData_entries [of collate fs] distinct_card [of "map fst (forestEntries ?F)"]
    by simp
  also have "\<dots> = card (parts ` set fs)"
    using treeData_entries [of collate fs] by simp
  finally show ?thesis by (simp add: card_parts)
qed

lemma treeData_distinct:
  assumes "distinct (map (\<lambda>f. cleanPath (file_path f)) fs)"
  shows "mset (map node_fileId (fileNodes (treeData collate fs))) =
    mset (map (\<lambda>f. Some (file_id f)) fs)"
proof -
  define S where "S = jsSort (\<lambda>a b. localeCompare collate (file_path a) (file_path b)) fs"
  define R where "R = fold placeFile S []"
  have F: "treeData collate fs = sortNodes collate R"
    by (simp add: treeData_def S_def R_def)
  have "map parts fs = map (split CHR ''/'') (map (\<lambda>f. cleanPath (file_path f)) fs)"
    by (simp add: parts_def)
  moreover have "inj_on (split CHR ''/'') A" for A
    by (rule inj_onI) (rule split_inj)
  ultimately have "distinct (map parts fs)"
    using assms by (simp add: distinct_map del: map_map)
  moreover have "mset (map parts S) = mset (map parts fs)"
    by (simp add: S_def mset_jsSort)
  ultimately have "distinct (map parts S)"
    using mset_eq_imp_distinct_iff by blast
  then have "mset (forestEntries R) = mset (map entryOf S)"
    using fold_placeFile_distinct [of "[]" S] by (simp add: R_def wfForest_def)
  then have "mset (forestEntries (sortNodes collate R)) = image_mset entryOf (mset fs)"
    by (simp add: sortNodes_entries S_def mset_jsSort)
  then have "mset (map snd (forestEntries (treeData collate fs))) =
      image_mset snd (image_mset entryOf (mset fs))"
    by (simp add: F)
  then show ?thesis
    by (simp add: entries_fileNodes entryOf_def image_mset.compositionality comp_def)
qed

lemma orderedNode_children:
  "orderedNode collate n \<Longrightarrow> m \<in> set (nodesOf n) \<Longrightarrow>
   sorted_wrt (comesBefore collate) (children m)"
proof (induction n arbitrary: m)
  case (TreeNode i n p t ch f s)
  show ?case
  proof (cases "m = TreeNode i n p t ch f s")
    case True
    then show ?thesis using TreeNode.prems(1) by simp
  next
    case False
    then obtain x where "x \<in> set ch" "m \<in> set (nodesOf x)"
      using TreeNode.prems(2) by auto
    then show ?thesis using TreeNode.IH [of x m] TreeNode.prems(1) by simp
  qed
qed

lemma orderedForest_children:
  "orderedForest collate forest \<Longrightarrow> m \<in> set (allNodes forest) \<Longrightarrow>
   sorted_wrt (comesBefore collate) (children m)"
  using orderedNode_children by (fastforce simp: orderedForest_def allNodes_def)

section \<open>The claims about the file tree\<close>

text \<open>
  Claim C1, as amended. For every list of records, the forest has exactly one file node
  for each distinct normalized path (the path without one leading slash) among the
  records: the number of file nodes is the number of such paths, the file nodes sit at
  pairwise distinct places, the places are those the paths name, and each file node
  carries the id of a record whose path names its place (\<open>forestEntries\<close> lists the
  file nodes with their places, in the order of \<open>fileNodes\<close>). Records with one
  normalized path share one file node. When the normalized paths are pairwise distinct,
  the ids on the file nodes are the ids of the records, each once.
\<close>

theorem treeData_file_nodes:
  "length (fileNodes (treeData collate fs)) = card ((\<lambda>f. cleanPath (file_path f)) ` set fs) \<and>
   map snd (forestEntries (treeData collate fs)) = map node_fileId (fileNodes (treeData collate fs)) \<and>
   distinct (map fst (forestEntries (treeData collate fs))) \<and>
   fst ` set (forestEntries (treeData collate fs)) = parts ` set fs \<and>
   set (forestEntries (treeData collate fs)) \<subseteq> entryOf ` set fs \<and>
   (distinct (map (\<lambda>f. cleanPath (file_path f)) fs) \<longrightarrow>
      mset (map node_fileId (fileNodes (treeData collate fs))) =
      mset (map (\<lambda>f. Some (file_id f)) fs))"
  using treeData_count [of collate fs] entries_fileNodes [of "treeData collate fs"]
    treeData_entries [of collate fs] treeData_distinct [of fs collate]
  by blast

theorem treeData_file_nodes_witness:
  "distinct (map (\<lambda>f. cleanPath (file_path f))
      [pdfRecord ''1'' ''a.pdf'', pdfRecord ''2'' ''/Docs/b.pdf'']) \<and>
   mset (map node_fileId (fileNodes (treeData codePoint
      [pdfRecord ''1'' ''a.pdf'', pdfRecord ''2'' ''/Docs/b.pdf'']))) =
   mset [Some ''1'', Some ''2'']"
proof -
  have d: "distinct (map (\<lambda>f. cleanPath (file_path f))
      [pdfRecord ''1'' ''a.pdf'', pdfRecord ''2'' ''/Docs/b.pdf''])"
    by (simp add: pdfRecord_def cleanPath_def)
  show ?thesis
    using d treeData_file_nodes [of codePoint
        "[pdfRecord ''1'' ''a.pdf'', pdfRecord ''2'' ''/Docs/b.pdf'']"]
    by (simp add: pdfRecord_def)
qed

text \<open>
  Claim C1 as stated fails: two records with the path \<open>x.pdf\<close> and the ids \<open>1\<close> and
  \<open>2\<close> give one file node, that of the first record; no node carries the id \<open>2\<close>.
\<close>

theorem treeData_same_path_one_node:
  "fileNodes (treeData codePoint [pdfRecord ''1'' ''x.pdf'', pdfRecord ''2'' ''x.pdf'']) =
   [TreeNode ''1'' ''x.pdf'' ''x.pdf'' File [] (Some ''1'') (Some 0)]"
  by code_simp

text \<open>
  Claim C3, as amended. When no two different records of the input have paths that
  compare as equal (so in particular no two records share a path), the forest of every
  permutation of the input is the forest of the input.
\<close>

theorem treeData_permutation:
  assumes "inj_on (\<lambda>f. collate (file_path f)) (set fs)" "mset fs' = mset fs"
  shows "treeData collate fs' = treeData collate fs"
proof -
  have "sort_key (\<lambda>f. collate (file_path f)) fs = sort_key (\<lambda>f. collate (file_path f)) fs'"
    using assms by (intro sort_key_eq_sort_key) simp_all
  then show ?thesis by (simp add: treeData_def sortedFiles_sort_key)
qed

theorem treeData_permutation_witness:
  "treeData codePoint [pdfRecord ''2'' ''a.pdf'', pdfRecord ''1'' ''Docs/b.pdf''] =
   treeData codePoint [pdfRecord ''1'' ''Docs/b.pdf'', pdfRecord ''2'' ''a.pdf'']"
proof -
  have i: "inj_on (\<lambda>f. codePoint (file_path f))
      (set [pdfRecord ''1'' ''Docs/b.pdf'', pdfRecord ''2'' ''a.pdf''])"
    by (simp add: pdfRecord_def codePoint_def)
  have m: "mset [pdfRecord ''2'' ''a.pdf'', pdfRecord ''1'' ''Docs/b.pdf''] =
      mset [pdfRecord ''1'' ''Docs/b.pdf'', pdfRecord ''2'' ''a.pdf'']"
    by simp
  show ?thesis by (rule treeData_permutation [OF i m])
qed

text \<open>
  Claim C3 as stated fails: the two orders of two records with the path \<open>x.pdf\<close> give
  different forests (the file node carries the id of the record that comes first).
\<close>

theorem treeData_order_matters:
  "mset [pdfRecord ''2'' ''x.pdf'', pdfRecord ''1'' ''x.pdf''] =
     mset [pdfRecord ''1'' ''x.pdf'', pdfRecord ''2'' ''x.pdf''] \<and>
   treeData codePoint [pdfRecord ''2'' ''x.pdf'', pdfRecord ''1'' ''x.pdf''] \<noteq>
     treeData codePoint [pdfRecord ''1'' ''x.pdf'', pdfRecord ''2'' ''x.pdf'']"
proof
  show "mset [pdfRecord ''2'' ''x.pdf'', pdfRecord ''1'' ''x.pdf''] =
     mset [pdfRecord ''1'' ''x.pdf'', pdfRecord ''2'' ''x.pdf'']"
    by simp
  show "treeData codePoint [pdfRecord ''2'' ''x.pdf'', pdfRecord ''1'' ''x.pdf''] \<noteq>
     treeData codePoint [pdfRecord ''1'' ''x.pdf'', pdfRecord ''2'' ''x.pdf'']"
    by code_simp
qed

text \<open>
  Claim C4, as amended. The projector removes one leading slash from a path and then
  splits it at every slash; it neither collapses doubled slashes nor skips empty parts.
  The names of the nodes of the forest are exactly the parts of the paths so split, so
  the forest has no node with the empty name when no path has an empty part after its one
  leading slash is removed.
\<close>

theorem treeData_node_names:
  "node_name ` set (allNodes (treeData collate fs)) =
     (\<Union>f \<in> set fs. set (split CHR ''/'' (cleanPath (file_path f)))) \<and>
   ((\<forall>f \<in> set fs. [] \<notin> set (split CHR ''/'' (cleanPath (file_path f)))) \<longrightarrow>
    (\<forall>n \<in> set (allNodes (treeData collate fs)). node_name n \<noteq> []))"
proof -
  have eq: "node_name ` set (allNodes (treeData collate fs)) =
      (\<Union>f \<in> set fs. set (split CHR ''/'' (cleanPath (file_path f))))"
    using treeData_names [of collate fs] by (simp add: parts_def)
  then show ?thesis by (metis (no_types, lifting) UN_iff imageI)
qed

theorem treeData_node_names_witness:
  "map node_name (allNodes (treeData codePoint [pdfRecord ''1'' ''/Docs/b.pdf''])) =
     [''Docs'', ''b.pdf''] \<and>
   list_all (\<lambda>n. node_name n \<noteq> [])
     (allNodes (treeData codePoint [pdfRecord ''1'' ''/Docs/b.pdf'']))"
proof -
  have h: "\<forall>f \<in> set [pdfRecord ''1'' ''/Docs/b.pdf''].
      [] \<notin> set (split CHR ''/'' (cleanPath (file_path f)))"
    by (simp add: pdfRecord_def cleanPath_def)
  have e: "map node_name (allNodes (treeData codePoint [pdfRecord ''1'' ''/Docs/b.pdf''])) =
     [''Docs'', ''b.pdf'']"
    by code_simp
  show ?thesis
    using h e treeData_node_names [of codePoint "[pdfRecord ''1'' ''/Docs/b.pdf'']"]
    by (simp add: list_all_iff)
qed

text \<open>
  Claim C4 as stated fails: the path \<open>a//b.pdf\<close> is split into the parts \<open>a\<close>, the empty
  string and \<open>b.pdf\<close>, and the forest has a folder with the empty name.
\<close>

theorem treeData_empty_name:
  "map node_name (allNodes (treeData codePoint [pdfRecord ''1'' ''a//b.pdf''])) =
   [''a'', '''', ''b.pdf'']"
  by code_simp

text \<open>
  Claim C5, as amended. Among the roots and among the children of every node of the
  forest, every folder comes before every file, and two nodes of one kind are in the
  order that the host's \<open>localeCompare\<close> gives their names (a node listed earlier
  never compares as greater than one listed later): \<open>comesBefore\<close> holds of every two
  nodes in the order they are listed. This is the order of the host's collation and not,
  in general, the case-sensitive lexicographic order of the characters.
\<close>

theorem treeData_ordered:
  "sorted_wrt (comesBefore collate) (treeData collate fs) \<and>
   (\<forall>n \<in> set (allNodes (treeData collate fs)).
      sorted_wrt (comesBefore collate) (children n))"
  using sortNodes_ordered [of collate] orderedForest_children [of collate "treeData collate fs"]
  by (simp add: treeData_def orderedForest_def)

theorem treeData_ordered_witness:
  "treeData codePoint
     [pdfRecord ''1'' ''a.pdf'', pdfRecord ''2'' ''Docs/b.pdf'',
      pdfRecord ''3'' ''Docs/Sub/c.pdf'', pdfRecord ''4'' ''Docs2/d.pdf''] =
   [TreeNode ''Docs'' ''Docs'' ''Docs'' Folder
      [TreeNode ''Docs/Sub'' ''Sub'' ''Docs/Sub'' Folder
         [TreeNode ''3'' ''c.pdf'' ''Docs/Sub/c.pdf'' File [] (Some ''3'') (Some 0)]
         None None,
       TreeNode ''2'' ''b.pdf'' ''Docs/b.pdf'' File [] (Some ''2'') (Some 0)]
      None None,
    TreeNode ''Docs2'' ''Docs2'' ''Docs2'' Folder
      [TreeNode ''4'' ''d.pdf'' ''Docs2/d.pdf'' File [] (Some ''4'') (Some 0)]
      None None,
    TreeNode ''1'' ''a.pdf'' ''a.pdf'' File [] (Some ''1'') (Some 0)] \<and>
   sorted_wrt (comesBefore codePoint)
     (treeData codePoint
       [pdfRecord ''1'' ''a.pdf'', pdfRecord ''2'' ''Docs/b.pdf'',
        pdfRecord ''3'' ''Docs/Sub/c.pdf'', pdfRecord ''4'' ''Docs2/d.pdf'']) \<and>
   list_all (\<lambda>n. sorted_wrt (comesBefore codePoint) (children n))
     (allNodes (treeData codePoint
       [pdfRecord ''1'' ''a.pdf'', pdfRecord ''2'' ''Docs/b.pdf'',
        pdfRecord ''3'' ''Docs/Sub/c.pdf'', pdfRecord ''4'' ''Docs2/d.pdf''])) \<and>
   sorted_wrt (comesBefore caseBlind)
     (treeData caseBlind [pdfRecord ''1'' ''B.pdf'', pdfRecord ''2'' ''a.pdf''])"
proof -
  have "treeData codePoint
     [pdfRecord ''1'' ''a.pdf'', pdfRecord ''2'' ''Docs/b.pdf'',
      pdfRecord ''3'' ''Docs/Sub/c.pdf'', pdfRecord ''4'' ''Docs2/d.pdf''] =
   [TreeNode ''Docs'' ''Docs'' ''Docs'' Folder
      [TreeNode ''Docs/Sub'' ''Sub'' ''Docs/Sub'' Folder
         [TreeNode ''3'' ''c.pdf'' ''Docs/Sub/c.pdf'' File [] (Some ''3'') (Some 0)]
         None None,
       TreeNode ''2'' ''b.pdf'' ''Docs/b.pdf'' File [] (Some ''2'') (Some 0)]
      None None,
    TreeNode ''Docs2'' ''Docs2'' ''Docs2'' Folder
      [TreeNode ''4'' ''d.pdf'' ''Docs2/d.pdf'' File [] (Some ''4'') (Some 0)]
      None None,
    TreeNode ''1'' ''a.pdf'' ''a.pdf'' File [] (Some ''1'') (Some 0)]"
    by code_simp
  then show ?thesis
    using treeData_ordered [of codePoint
        "[pdfRecord ''1'' ''a.pdf'', pdfRecord ''2'' ''Docs/b.pdf'',
          pdfRecord ''3'' ''Docs/Sub/c.pdf'', pdfRecord ''4'' ''Docs2/d.pdf'']"]
      treeData_ordered [of caseBlind "[pdfRecord ''1'' ''B.pdf'', pdfRecord ''2'' ''a.pdf'']"]
    unfolding list_all_iff by blast
qed

text \<open>
  Claim C5 as stated fails: under a collation that compares letters without regard to
  case first, as the default collation of the browsers does, the files \<open>B.pdf\<close> and
  \<open>a.pdf\<close> are listed as \<open>a.pdf\<close>, \<open>B.pdf\<close>, while the case-sensitive
  lexicographic order puts \<open>B.pdf\<close> before \<open>a.pdf\<close>: the roots are not in that
  order.
\<close>

theorem treeData_not_code_point_order:
  "map node_name (treeData caseBlind [pdfRecord ''1'' ''B.pdf'', pdfRecord ''2'' ''a.pdf'']) =
     [''a.pdf'', ''B.pdf''] \<and>
   map node_type (treeData caseBlind [pdfRecord ''1'' ''B.pdf'', pdfRecord ''2'' ''a.pdf'']) =
     [File, File] \<and>
   ''B.pdf'' < ''a.pdf'' \<and>
   \<not> sorted_wrt (comesBefore codePoint)
     (treeData caseBlind [pdfRecord ''1'' ''B.pdf'', pdfRecord ''2'' ''a.pdf''])"
  by code_simp

section \<open>Properties of the shell, the reader and the chat\<close>

lemma findIndex_None: "findIndex P xs = None \<longleftrightarrow> (\<forall>x \<in> set xs. \<not> P x)"
  by (induction xs) auto

lemma findIndex_split:
  "findIndex P xs = Some i \<Longrightarrow>
   \<exists>ys x zs. xs = ys @ x # zs \<and> P x \<and> (\<forall>y \<in> set ys. \<not> P y) \<and> i = length ys"
proof (induction xs arbitrary: i)
  case Nil
  then show ?case by simp
next
  case (Cons a xs)
  show ?case
  proof (cases "P a")
    case True
    then have "i = 0" using Cons.prems by simp
    then show ?thesis using True by (intro exI [of _ "[]"] exI [of _ a] exI [of _ xs]) simp
  next
    case False
    then obtain j where j: "findIndex P xs = Some j" "i = Suc j"
      using Cons.prems by auto
    then obtain ys x zs where "xs = ys @ x # zs" "P x" "\<forall>y \<in> set ys. \<not> P y" "j = length ys"
      using Cons.IH by blast
    then show ?thesis using False j(2)
      by (intro exI [of _ "a # ys"] exI [of _ x] exI [of _ zs]) simp
  qed
qed

lemma upsert_props:
  assumes "distinct (map fileId prev)"
  shows "distinct (map fileId (upsert newItem prev)) \<and>
    filter (\<lambda>h. fileId h = fileId newItem) (upsert newItem prev) = [newItem] \<and>
    filter (\<lambda>h. fileId h \<noteq> fileId newItem) (upsert newItem prev) =
      filter (\<lambda>h. fileId h \<noteq> fileId newItem) prev \<and>
    length (upsert newItem prev) =
      (if fileId newItem \<in> fileId ` set prev then length prev else Suc (length prev))"
proof (cases "findIndex (\<lambda>h. fileId h = fileId newItem) prev")
  case None
  then have no: "\<forall>x \<in> set prev. fileId x \<noteq> fileId newItem"
    by (simp add: findIndex_None)
  have u: "upsert newItem prev = prev @ [newItem]"
    using None by (simp add: upsert_def)
  have "filter (\<lambda>h. fileId h = fileId newItem) prev = []"
    using no by (simp add: filter_empty_conv)
  moreover have "filter (\<lambda>h. fileId h \<noteq> fileId newItem) prev = prev"
    using no by (simp add: filter_id_conv)
  ultimately show ?thesis
    unfolding u using assms no by auto
next
  case (Some i)
  then obtain ys x zs where sp: "prev = ys @ x # zs" "fileId x = fileId newItem"
      "i = length ys"
    using findIndex_split [of "\<lambda>h. fileId h = fileId newItem" prev i] by blast
  have u: "upsert newItem prev = ys @ newItem # zs"
    using Some sp by (simp add: upsert_def)
  have others: "\<forall>y \<in> set ys \<union> set zs. fileId y \<noteq> fileId newItem"
    using assms sp by (auto simp: image_iff)
  then have "filter (\<lambda>h. fileId h = fileId newItem) ys = []"
    "filter (\<lambda>h. fileId h = fileId newItem) zs = []"
    "filter (\<lambda>h. fileId h \<noteq> fileId newItem) ys = ys"
    "filter (\<lambda>h. fileId h \<noteq> fileId newItem) zs = zs"
    by (simp_all add: filter_empty_conv filter_id_conv)
  then show ?thesis
    unfolding u using assms sp by auto
qed

lemma handlePageChange_history:
  "history (handlePageChange fails now now' page n s) = history s \<or>
   (\<exists>a. activeFileId s = Some a \<and> a \<noteq> [] \<and>
      history (handlePageChange fails now now' page n s) =
        upsert \<lparr>fileId = a, lastPage = page, lastReadAt = now', totalPages = Some n\<rparr> (history s))"
  by (auto simp: handlePageChange_def upsert_def Let_def split: option.splits prod.splits sum.splits)

lemma handlePageChange_accepted:
  assumes "activeFileId s = Some a" "a \<noteq> []" "\<not> fails OpenDb" "\<not> fails (Put STORE_HISTORY a)"
  shows "history (handlePageChange fails now now' page n s) =
      upsert \<lparr>fileId = a, lastPage = page, lastReadAt = now', totalPages = Some n\<rparr> (history s)"
    and "store_history (db (handlePageChange fails now now' page n s)) =
      (store_history (db s))(a \<mapsto> \<lparr>fileId = a, lastPage = page, lastReadAt = now, totalPages = Some n\<rparr>)"
  using assms
  by (simp_all add: handlePageChange_def updateHistory_def upsert_def Let_def)

lemma handlePageChange_keyed:
  "keyedByFileId (db s) \<Longrightarrow> keyedByFileId (db (handlePageChange fails now now' page n s))"
  by (auto simp: handlePageChange_def updateHistory_def keyedByFileId_def Let_def
      split: option.splits)

lemma deleteFile_keyed:
  "keyedByFileId d \<Longrightarrow> keyedByFileId (snd (deleteFile fails x d))"
  by (auto simp: deleteFile_def keyedByFileId_def Let_def)

lemma handleFileDeleteWith_inv:
  assumes "distinct (map fileId (history s))" "keyedByFileId (db s)"
  shows "distinct (map fileId (history (handleFileDeleteWith fails act x s))) \<and>
    keyedByFileId (db (handleFileDeleteWith fails act x s))"
  using assms deleteFile_keyed [of "db s" fails x]
  by (auto simp: handleFileDeleteWith_def distinct_map_filter split: prod.splits sum.splits)

lemma fold_handleFileDeleteWith_inv:
  assumes "distinct (map fileId (history s))" "keyedByFileId (db s)"
  shows "distinct (map fileId (history (fold (\<lambda>f. handleFileDeleteWith fails act (file_id f)) xs s))) \<and>
    keyedByFileId (db (fold (\<lambda>f. handleFileDeleteWith fails act (file_id f)) xs s))"
  using assms
proof (induction xs arbitrary: s)
  case Nil
  then show ?case by simp
next
  case (Cons x xs)
  then show ?case
    using handleFileDeleteWith_inv [of s fails act "file_id x"] by simp
qed

text \<open>
  Claim C6. The list of progress records has at most one record for every \<open>fileId\<close>,
  and the history store keeps every record under its \<open>fileId\<close> (one key, one record):
  a page change, the deletion of a file and the deletion of a folder keep both, whatever
  the storage does. A page change for the open file \<open>a\<close> that the storage accepts
  leaves exactly one listed record for \<open>a\<close>, the new one, and the records of the
  other files as they were; the list grows by one when \<open>a\<close> had no record and keeps
  its length when it had one; the store holds the new record under \<open>a\<close> and every
  other key as before.
\<close>

theorem handlePageChange_upsert:
  assumes "distinct (map fileId (history s))" "keyedByFileId (db s)"
  shows
   "distinct (map fileId (history (handlePageChange fails now now' page n s))) \<and>
    keyedByFileId (db (handlePageChange fails now now' page n s)) \<and>
    distinct (map fileId (history (handleFileDelete fails x s))) \<and>
    keyedByFileId (db (handleFileDelete fails x s)) \<and>
    distinct (map fileId (history (handleFolderDelete fails p s))) \<and>
    keyedByFileId (db (handleFolderDelete fails p s)) \<and>
    (activeFileId s = Some a \<and> a \<noteq> [] \<and> \<not> fails OpenDb \<and> \<not> fails (Put STORE_HISTORY a) \<longrightarrow>
       filter (\<lambda>h. fileId h = a) (history (handlePageChange fails now now' page n s)) =
         [\<lparr>fileId = a, lastPage = page, lastReadAt = now', totalPages = Some n\<rparr>] \<and>
       filter (\<lambda>h. fileId h \<noteq> a) (history (handlePageChange fails now now' page n s)) =
         filter (\<lambda>h. fileId h \<noteq> a) (history s) \<and>
       length (history (handlePageChange fails now now' page n s)) =
         (if a \<in> fileId ` set (history s) then length (history s) else Suc (length (history s))) \<and>
       store_history (db (handlePageChange fails now now' page n s)) =
         (store_history (db s))
           (a \<mapsto> \<lparr>fileId = a, lastPage = page, lastReadAt = now, totalPages = Some n\<rparr>))"
proof -
  let ?new = "\<lambda>a. \<lparr>fileId = a, lastPage = page, lastReadAt = now', totalPages = Some n\<rparr>"
  have 1: "distinct (map fileId (history (handlePageChange fails now now' page n s)))"
    using handlePageChange_history [of fails now now' page n s] assms(1)
      upsert_props [OF assms(1)]
    by auto
  have 2: "keyedByFileId (db (handlePageChange fails now now' page n s))"
    using assms(2) by (rule handlePageChange_keyed)
  have 3: "distinct (map fileId (history (handleFileDelete fails x s))) \<and>
    keyedByFileId (db (handleFileDelete fails x s))"
    unfolding handleFileDelete_def using assms by (rule handleFileDeleteWith_inv)
  have 4: "distinct (map fileId (history (handleFolderDelete fails p s))) \<and>
    keyedByFileId (db (handleFolderDelete fails p s))"
    unfolding handleFolderDelete_def using assms by (rule fold_handleFileDeleteWith_inv)
  have 5: "filter (\<lambda>h. fileId h = a) (history (handlePageChange fails now now' page n s)) = [?new a] \<and>
       filter (\<lambda>h. fileId h \<noteq> a) (history (handlePageChange fails now now' page n s)) =
         filter (\<lambda>h. fileId h \<noteq> a) (history s) \<and>
       length (history (handlePageChange fails now now' page n s)) =
         (if a \<in> fileId ` set (history s) then length (history s) else Suc (length (history s))) \<and>
       store_history (db (handlePageChange fails now now' page n s)) =
         (store_history (db s))
           (a \<mapsto> \<lparr>fileId = a, lastPage = page, lastReadAt = now, totalPages = Some n\<rparr>)"
    if "activeFileId s = Some a" "a \<noteq> []" "\<not> fails OpenDb" "\<not> fails (Put STORE_HISTORY a)"
    using handlePageChange_accepted [OF that, of now now' page n]
      upsert_props [OF assms(1), of "?new a"]
    by simp
  show ?thesis using 1 2 3 4 5 by blast
qed

lemma library_inv: "distinct (map fileId (history library))" "keyedByFileId (db library)"
  by (auto simp: library_def keyedByFileId_def split: if_splits)

theorem handlePageChange_upsert_witness:
  "history (handlePageChange (\<lambda>r. False) 70 71 4 10 library) =
     [\<lparr>fileId = ''a'', lastPage = 4, lastReadAt = 71, totalPages = Some 10\<rparr>,
      \<lparr>fileId = ''b'', lastPage = 1, lastReadAt = 60, totalPages = Some 5\<rparr>] \<and>
   filter (\<lambda>h. fileId h = ''a'') (history (handlePageChange (\<lambda>r. False) 70 71 4 10 library)) =
     [\<lparr>fileId = ''a'', lastPage = 4, lastReadAt = 71, totalPages = Some 10\<rparr>] \<and>
   length (history (handlePageChange (\<lambda>r. False) 70 71 4 10 library)) = 2 \<and>
   store_history (db (handlePageChange (\<lambda>r. False) 70 71 4 10 library)) ''a'' =
     Some \<lparr>fileId = ''a'', lastPage = 4, lastReadAt = 70, totalPages = Some 10\<rparr>"
proof -
  have h: "activeFileId library = Some ''a''" "''a'' \<noteq> []"
    by (simp_all add: library_def)
  have e: "history (handlePageChange (\<lambda>r. False) 70 71 4 10 library) =
     [\<lparr>fileId = ''a'', lastPage = 4, lastReadAt = 71, totalPages = Some 10\<rparr>,
      \<lparr>fileId = ''b'', lastPage = 1, lastReadAt = 60, totalPages = Some 5\<rparr>]"
    by (simp add: handlePageChange_def updateHistory_def library_def)
  have l: "''a'' \<in> fileId ` set (history library)" "length (history library) = 2"
    by (simp_all add: library_def)
  have m: "((store_history (db library))
      (''a'' \<mapsto> \<lparr>fileId = ''a'', lastPage = 4, lastReadAt = 70, totalPages = Some 10\<rparr>)) ''a'' =
      Some \<lparr>fileId = ''a'', lastPage = 4, lastReadAt = 70, totalPages = Some 10\<rparr>"
    by simp
  have "\<not> False" by simp
  then show ?thesis
    using handlePageChange_upsert [OF library_inv, of "\<lambda>r. False" 70 71 4 10 "''x''" "''y''" "''a''"]
      h l m e
    by metis
qed

lemma filter_remove1:
  "distinct (map g xs) \<Longrightarrow> f \<in> set xs \<Longrightarrow> filter (\<lambda>y. g y \<noteq> g f) xs = remove1 f xs"
proof (induction xs)
  case Nil
  then show ?case by simp
next
  case (Cons a xs)
  show ?case
  proof (cases "a = f")
    case True
    then have "g f \<notin> g ` set xs" using Cons.prems(1) by simp
    then have "\<forall>y \<in> set xs. g y \<noteq> g f" by (metis imageI)
    then show ?thesis using True by (simp add: filter_id_conv)
  next
    case False
    then have "g a \<noteq> g f" using Cons.prems by auto
    then show ?thesis using False Cons by simp
  qed
qed

text \<open>
  Claim C7. When the storage accepts the deletion of the file \<open>x\<close>, the list of files
  is the list before without the records of id \<open>x\<close> (without the one record, when the
  ids of the list are pairwise distinct), the progress records are those before without
  the record of \<open>x\<close>, in the list and in the store, the stored files are those before
  without \<open>x\<close>, and the selection is cleared when it was \<open>x\<close> and is what it was
  otherwise.
\<close>

theorem handleFileDelete_effect:
  assumes "\<not> fails OpenDb" "\<not> fails (Delete STORE_FILES x)" "\<not> fails (Delete STORE_HISTORY x)"
  shows
   "files (handleFileDelete fails x s) = filter (\<lambda>f. file_id f \<noteq> x) (files s) \<and>
    history (handleFileDelete fails x s) = filter (\<lambda>h. fileId h \<noteq> x) (history s) \<and>
    activeFileId (handleFileDelete fails x s) =
      (if activeFileId s = Some x then None else activeFileId s) \<and>
    store_files (db (handleFileDelete fails x s)) = (store_files (db s))(x := None) \<and>
    store_history (db (handleFileDelete fails x s)) = (store_history (db s))(x := None) \<and>
    (\<forall>f \<in> set (files s). file_id f = x \<and> distinct (map file_id (files s)) \<longrightarrow>
       files (handleFileDelete fails x s) = remove1 f (files s))"
proof -
  have "files (handleFileDelete fails x s) = filter (\<lambda>f. file_id f \<noteq> x) (files s)"
    using assms by (simp add: handleFileDelete_def handleFileDeleteWith_def deleteFile_def)
  moreover have "filter (\<lambda>f. file_id f \<noteq> x) (files s) = remove1 f (files s)"
    if "f \<in> set (files s)" "file_id f = x" "distinct (map file_id (files s))" for f
    using filter_remove1 [of file_id "files s" f] that by simp
  moreover have "history (handleFileDelete fails x s) = filter (\<lambda>h. fileId h \<noteq> x) (history s)"
    "activeFileId (handleFileDelete fails x s) =
      (if activeFileId s = Some x then None else activeFileId s)"
    "store_files (db (handleFileDelete fails x s)) = (store_files (db s))(x := None)"
    "store_history (db (handleFileDelete fails x s)) = (store_history (db s))(x := None)"
    using assms by (simp_all add: handleFileDelete_def handleFileDeleteWith_def deleteFile_def)
  ultimately show ?thesis by simp
qed

theorem handleFileDelete_effect_witness:
  "files (handleFileDelete (\<lambda>r. False) ''a'' library) = [pdfRecord ''b'' ''Docs/c.pdf''] \<and>
   history (handleFileDelete (\<lambda>r. False) ''a'' library) =
     [\<lparr>fileId = ''b'', lastPage = 1, lastReadAt = 60, totalPages = Some 5\<rparr>] \<and>
   activeFileId (handleFileDelete (\<lambda>r. False) ''a'' library) = None \<and>
   activeFileId (handleFileDelete (\<lambda>r. False) ''b'' library) = Some ''a'' \<and>
   store_files (db (handleFileDelete (\<lambda>r. False) ''a'' library)) ''a'' = None \<and>
   store_history (db (handleFileDelete (\<lambda>r. False) ''a'' library)) ''a'' = None \<and>
   store_history (db (handleFileDelete (\<lambda>r. False) ''a'' library)) ''b'' =
     Some \<lparr>fileId = ''b'', lastPage = 1, lastReadAt = 60, totalPages = Some 5\<rparr>"
  using handleFileDelete_effect [of "\<lambda>r. False" "''a''" library]
    handleFileDelete_effect [of "\<lambda>r. False" "''b''" library]
  by (simp add: library_def pdfRecord_def)

text \<open>A deletion that the storage rejects changes nothing in memory.\<close>

lemma handleFileDelete_rejected:
  assumes "fails OpenDb \<or> fails (Delete STORE_FILES x) \<or> fails (Delete STORE_HISTORY x)"
  shows "files (handleFileDelete fails x s) = files s \<and>
    history (handleFileDelete fails x s) = history s \<and>
    activeFileId (handleFileDelete fails x s) = activeFileId s"
  using assms
  by (auto simp: handleFileDelete_def handleFileDeleteWith_def deleteFile_def Let_def)

lemma handleFileDeleteWith_calls:
  "calls (db (handleFileDeleteWith fails act x s)) = calls (db s) @ [DeleteFile x]"
  by (simp add: handleFileDeleteWith_def deleteFile_def Let_def)

lemma handleFolderDelete_calls_fold:
  "calls (db (fold (\<lambda>f. handleFileDeleteWith fails act (file_id f)) xs s)) =
   calls (db s) @ map (\<lambda>f. DeleteFile (file_id f)) xs"
  by (induction xs arbitrary: s) (simp_all add: handleFileDeleteWith_calls)

text \<open>
  \<open>handleFolderDelete\<close> of App.tsx calls the deletion of every matched file, in order,
  whatever the storage rejects.
\<close>

lemma handleFolderDelete_attempts_all:
  "calls (db (handleFolderDelete fails p s)) =
   calls (db s) @ map (\<lambda>f. DeleteFile (file_id f)) (filesToDelete (files s) p)"
  by (simp add: handleFolderDelete_def handleFolderDelete_calls_fold)

text \<open>
  Claim C8, at a failing input of the shell with the chat panel. The folder \<open>Docs\<close>
  matches the files \<open>a\<close> and \<open>b\<close>; the storage rejects the deletion of \<open>a\<close>.
  That shell's \<open>handleFolderDelete\<close> ends with the rejection after the one call for
  \<open>a\<close>: the deletion of \<open>b\<close> is never attempted and the list is not updated. On the
  same input \<open>handleFolderDelete\<close> of App.tsx calls the deletion of \<open>b\<close> as well and
  removes \<open>b\<close> from the list.
\<close>

theorem handleFolderDelete_chat_aborts:
  "handleFolderDelete_chat (\<lambda>r. r = Delete STORE_FILES ''a'') True ''Docs'' library =
     (Inl storageError, library\<lparr>db := (db library)\<lparr>calls := [DeleteFile ''a'']\<rparr>\<rparr>) \<and>
   filesToDelete_chat (files library) ''Docs'' =
     [pdfRecord ''a'' ''Docs/b.pdf'', pdfRecord ''b'' ''Docs/c.pdf''] \<and>
   calls (db (handleFolderDelete (\<lambda>r. r = Delete STORE_FILES ''a'') ''Docs'' library)) =
     [DeleteFile ''a'', DeleteFile ''b''] \<and>
   files (handleFolderDelete (\<lambda>r. r = Delete STORE_FILES ''a'') ''Docs'' library) =
     [pdfRecord ''a'' ''Docs/b.pdf'']"
  by (simp add: handleFolderDelete_chat_def filesToDelete_chat_def handleFolderDelete_def
      filesToDelete_def handleFileDeleteWith_def deleteFile_def library_def pdfRecord_def
      cleanPath_def)

text \<open>
  Claim C2, as amended. The folder query of the shell with the chat panel selects a file
  of the list exactly when its path is the folder path or starts with the folder path
  followed by a slash. The folder query of App.tsx selects a file of the list exactly
  when its path, without one leading slash, starts with the folder path followed by a
  slash; a file whose path is the folder path itself is not selected by it. Under both,
  the folder \<open>Foo\<close> selects \<open>Foo/x.pdf\<close> and \<open>Foo/Sub/y.pdf\<close> and not
  \<open>Foobar/x.pdf\<close>.
\<close>

theorem folder_query:
  "(f \<in> set (filesToDelete_chat fs p) \<longleftrightarrow>
      f \<in> set fs \<and> (file_path f = p \<or> (\<exists>r. file_path f = p @ ''/'' @ r))) \<and>
   (f \<in> set (filesToDelete fs p) \<longleftrightarrow>
      f \<in> set fs \<and> (\<exists>r. cleanPath (file_path f) = p @ ''/'' @ r)) \<and>
   (file_path f = ''Foobar/x.pdf'' \<longrightarrow>
      f \<notin> set (filesToDelete_chat fs ''Foo'') \<and> f \<notin> set (filesToDelete fs ''Foo'')) \<and>
   (f \<in> set fs \<and> (file_path f = ''Foo/x.pdf'' \<or> file_path f = ''Foo/Sub/y.pdf'') \<longrightarrow>
      f \<in> set (filesToDelete_chat fs ''Foo'') \<and> f \<in> set (filesToDelete fs ''Foo'')) \<and>
   (f \<in> set fs \<and> file_path f = ''Foo'' \<longrightarrow>
      f \<in> set (filesToDelete_chat fs ''Foo'') \<and> f \<notin> set (filesToDelete fs ''Foo''))"
proof -
  have "f \<in> set (filesToDelete_chat fs p) \<longleftrightarrow>
      f \<in> set fs \<and> (file_path f = p \<or> (\<exists>r. file_path f = p @ ''/'' @ r))"
    by (auto simp: filesToDelete_chat_def startsWith_iff)
  moreover have "f \<in> set (filesToDelete fs p) \<longleftrightarrow>
      f \<in> set fs \<and> (\<exists>r. cleanPath (file_path f) = p @ ''/'' @ r)"
    by (auto simp: filesToDelete_def startsWith_iff)
  moreover have "f \<notin> set (filesToDelete_chat fs ''Foo'') \<and> f \<notin> set (filesToDelete fs ''Foo'')"
    if "file_path f = ''Foobar/x.pdf''"
    using that by (simp add: filesToDelete_chat_def filesToDelete_def cleanPath_def)
  moreover have "f \<in> set (filesToDelete_chat fs ''Foo'') \<and> f \<in> set (filesToDelete fs ''Foo'')"
    if "f \<in> set fs" "file_path f = ''Foo/x.pdf'' \<or> file_path f = ''Foo/Sub/y.pdf''"
    using that by (auto simp: filesToDelete_chat_def filesToDelete_def cleanPath_def)
  moreover have "f \<in> set (filesToDelete_chat fs ''Foo'') \<and> f \<notin> set (filesToDelete fs ''Foo'')"
    if "f \<in> set fs" "file_path f = ''Foo''"
    using that by (simp add: filesToDelete_chat_def filesToDelete_def cleanPath_def)
  ultimately show ?thesis by blast
qed

theorem folder_query_witness:
  "filesToDelete_chat
     [pdfRecord ''1'' ''Foobar/x.pdf'', pdfRecord ''2'' ''Foo/x.pdf'',
      pdfRecord ''3'' ''Foo/Sub/y.pdf'', pdfRecord ''4'' ''Foo''] ''Foo'' =
     [pdfRecord ''2'' ''Foo/x.pdf'', pdfRecord ''3'' ''Foo/Sub/y.pdf'', pdfRecord ''4'' ''Foo''] \<and>
   filesToDelete
     [pdfRecord ''1'' ''Foobar/x.pdf'', pdfRecord ''2'' ''Foo/x.pdf'',
      pdfRecord ''3'' ''Foo/Sub/y.pdf'', pdfRecord ''4'' ''Foo''] ''Foo'' =
     [pdfRecord ''2'' ''Foo/x.pdf'', pdfRecord ''3'' ''Foo/Sub/y.pdf''] \<and>
   pdfRecord ''3'' ''Foo/Sub/y.pdf'' \<in> set (filesToDelete
     [pdfRecord ''1'' ''Foobar/x.pdf'', pdfRecord ''2'' ''Foo/x.pdf'',
      pdfRecord ''3'' ''Foo/Sub/y.pdf'', pdfRecord ''4'' ''Foo''] ''Foo'') \<and>
   pdfRecord ''1'' ''Foobar/x.pdf'' \<notin> set (filesToDelete_chat
     [pdfRecord ''1'' ''Foobar/x.pdf'', pdfRecord ''2'' ''Foo/x.pdf'',
      pdfRecord ''3'' ''Foo/Sub/y.pdf'', pdfRecord ''4'' ''Foo''] ''Foo'')"
  using folder_query [of "pdfRecord ''3'' ''Foo/Sub/y.pdf''"
      "[pdfRecord ''1'' ''Foobar/x.pdf'', pdfRecord ''2'' ''Foo/x.pdf'',
        pdfRecord ''3'' ''Foo/Sub/y.pdf'', pdfRecord ''4'' ''Foo'']" "''Foo''"]
  by (simp add: filesToDelete_chat_def filesToDelete_def pdfRecord_def cleanPath_def)

text \<open>
  Claim C2 as stated fails for App.tsx: a file whose path is exactly \<open>Foo\<close> is not
  selected by the query for the folder \<open>Foo\<close>.
\<close>

theorem folder_query_exact_path_not_selected:
  "file_path (pdfRecord ''4'' ''Foo'') = ''Foo'' \<and>
   filesToDelete [pdfRecord ''4'' ''Foo''] ''Foo'' = []"
  by (simp add: filesToDelete_def pdfRecord_def cleanPath_def)












end
